theory Spec2Isabelle
  imports Main
begin

section \<open>JavaScript strings\<close>

text \<open>
  A JavaScript string is a sequence of UTF-16 code units. The model uses \<open>string\<close>
  (a \<open>char list\<close>) and reads every \<open>char\<close> as one code unit below 256, so that
  \<open>length\<close> is \<open>.length\<close> and \<open>html ! i\<close> is \<open>html[i]\<close> for \<open>i < length html\<close>.
\<close>

definition is_space :: "char \<Rightarrow> bool" where
  \<comment> \<open>the code units below 256 that \<open>trim()\<close> strips and the regex class \<open>\s\<close> matches:
      TAB, LF, VT, FF, CR, SPACE and NBSP\<close>
  "is_space c = (of_char c \<in> {9::nat, 10, 11, 12, 13, 32, 160})"

definition is_ident :: "char \<Rightarrow> bool" where
  \<comment> \<open>the regex class \<open>[a-zA-Z0-9_-]\<close>\<close>
  "is_ident c =
     (let n = (of_char c :: nat)
      in (97 \<le> n \<and> n \<le> 122) \<or> (65 \<le> n \<and> n \<le> 90) \<or> (48 \<le> n \<and> n \<le> 57)
         \<or> n = 95 \<or> n = 45)"

definition to_lower :: "char \<Rightarrow> char" where
  \<comment> \<open>\<open>toLowerCase()\<close> on one code unit; it is only applied to \<open>is_ident\<close> characters\<close>
  "to_lower c =
     (let n = (of_char c :: nat) in if 65 \<le> n \<and> n \<le> 90 then char_of (n + 32) else c)"

definition toLowerCase :: "string \<Rightarrow> string" where
  "toLowerCase s = map to_lower s"

definition trim :: "string \<Rightarrow> string" where
  "trim s = rev (dropWhile is_space (rev (dropWhile is_space s)))"

definition substring :: "string \<Rightarrow> nat \<Rightarrow> nat \<Rightarrow> string" where
  \<comment> \<open>\<open>s.substring(a, b)\<close>: both arguments are clamped to the length and swapped when
      \<open>a > b\<close>\<close>
  "substring s a b =
     (let a' = min a (length s); b' = min b (length s)
      in take (max a' b' - min a' b') (drop (min a' b') s))"

definition substring_from :: "string \<Rightarrow> nat \<Rightarrow> string" where
  \<comment> \<open>\<open>s.substring(a)\<close>\<close>
  "substring_from s a = drop a s"

fun find_sub :: "string \<Rightarrow> string \<Rightarrow> nat option" where
  \<comment> \<open>the first position at which \<open>pat\<close> occurs in \<open>s\<close>\<close>
  "find_sub pat [] = (if pat = [] then Some 0 else None)"
| "find_sub pat (c # cs) =
     (if take (length pat) (c # cs) = pat then Some 0
      else map_option Suc (find_sub pat cs))"

definition indexOf :: "string \<Rightarrow> string \<Rightarrow> nat \<Rightarrow> nat option" where
  \<comment> \<open>\<open>html.indexOf(str, index)\<close>; \<open>None\<close> is the result \<open>-1\<close>\<close>
  "indexOf html str index = map_option (\<lambda>k. index + k) (find_sub str (drop index html))"

definition char_at :: "string \<Rightarrow> nat \<Rightarrow> char option" where
  \<comment> \<open>\<open>html[i]\<close>; \<open>None\<close> is \<open>undefined\<close>\<close>
  "char_at html i = (if i < length html then Some (html ! i) else None)"

definition endsWith :: "string \<Rightarrow> char \<Rightarrow> bool" where
  "endsWith s c = (s \<noteq> [] \<and> last s = c)"

definition consume :: "nat \<Rightarrow> int \<Rightarrow> nat" where
  \<comment> \<open>the helper \<open>consume(length)\<close>: \<open>index += length\<close>. No caller uses the substring
      it returns. The length is an integer expression of the caller.\<close>
  "consume index len = nat (int index + len)"

section \<open>Attribute objects\<close>

text \<open>
  \<open>attributes\<close> is a plain object created by \<open>{}\<close>. The model keeps its own
  properties in creation order. The assignment \<open>attributes[key] = value\<close> replaces the
  value of an existing key in place and appends a new key otherwise. The one exception
  is the key \<open>__proto__\<close>: on a plain object it is the inherited accessor of
  \<open>Object.prototype\<close>, whose setter ignores a string, so the assignment creates no
  property.
\<close>

type_synonym attributes = "(string \<times> string) list"

fun update_key :: "string \<Rightarrow> string \<Rightarrow> attributes \<Rightarrow> attributes" where
  "update_key k v [] = [(k, v)]"
| "update_key k v ((k', v') # ps) =
     (if k' = k then (k', v) # ps else (k', v') # update_key k v ps)"

definition obj_set :: "attributes \<Rightarrow> string \<Rightarrow> string \<Rightarrow> attributes" where
  "obj_set attrs key val = (if key = ''__proto__'' then attrs else update_key key val attrs)"

text \<open>
  \<open>for (const key in attributes)\<close> visits the own keys that are array indices (canonical
  decimal numerals below \<open>2^32 - 1\<close>) first, in ascending numeric order, and then the
  other keys in creation order.
\<close>

definition is_digit :: "char \<Rightarrow> bool" where
  "is_digit c = (48 \<le> (of_char c :: nat) \<and> (of_char c :: nat) \<le> 57)"

definition digits_value :: "string \<Rightarrow> nat" where
  "digits_value s = foldl (\<lambda>n c. 10 * n + (of_char c - 48)) 0 s"

definition is_array_index :: "string \<Rightarrow> bool" where
  "is_array_index k =
     (k \<noteq> [] \<and> list_all is_digit k \<and> (k = ''0'' \<or> hd k \<noteq> CHR ''0'')
      \<and> digits_value k < 2 ^ 32 - 1)"

definition for_in :: "attributes \<Rightarrow> attributes" where
  "for_in attrs =
     sort_key (\<lambda>p. digits_value (fst p)) (filter (\<lambda>p. is_array_index (fst p)) attrs)
     @ filter (\<lambda>p. \<not> is_array_index (fst p)) attrs"

section \<open>extractAttributes\<close>

text \<open>
  The regular expression is
  \<open>/([a-zA-Z0-9_-]+)(?:\s*=\s*(?:'([^']*)'|"([^"]*)"))?/g\<close>.
  \<open>quoted q s\<close> matches \<open>q[^q]*q\<close> at the start of \<open>s\<close> and returns the captured group
  and the rest of the input after the closing quote.
\<close>

definition quoted :: "char \<Rightarrow> string \<Rightarrow> (string \<times> string) option" where
  "quoted q s =
     (case s of
        [] \<Rightarrow> None
      | c # r \<Rightarrow>
          if c = q \<and> q \<in> set r
          then Some (takeWhile (\<lambda>x. x \<noteq> q) r, tl (dropWhile (\<lambda>x. x \<noteq> q) r))
          else None)"

text \<open>
  \<open>value_part s\<close> matches the optional group \<open>\s*=\s*(?:'([^']*)'|"([^"]*)")\<close> at the
  start of \<open>s\<close>: it returns capture groups 2 and 3 (\<open>None\<close> is \<open>undefined\<close>) and the rest
  of the input. No character of \<open>\s\<close> is \<open>=\<close> or a quote, and \<open>[^q]*\<close> must stop at the
  first \<open>q\<close>, so backtracking finds no other match.
\<close>

definition value_part :: "string \<Rightarrow> (string option \<times> string option \<times> string) option" where
  "value_part s =
     (case dropWhile is_space s of
        [] \<Rightarrow> None
      | c # s2 \<Rightarrow>
          if c = CHR ''='' then
            (let s3 = dropWhile is_space s2
             in case quoted (CHR 0x27) s3 of
                  Some (v, r) \<Rightarrow> Some (Some v, None, r)
                | None \<Rightarrow>
                    (case quoted (CHR 0x22) s3 of
                       Some (v, r) \<Rightarrow> Some (None, Some v, r)
                     | None \<Rightarrow> None))
          else None)"

text \<open>
  \<open>attr_exec s\<close> is \<open>attrRegex.exec(tagString)\<close> where \<open>s\<close> is the part of \<open>tagString\<close>
  from \<open>lastIndex\<close> on: the match starts at the first \<open>is_ident\<close> character, group 1 is
  the longest run of such characters, and the optional group is taken when it matches.
  The result is groups 1, 2, 3 and the input from the new \<open>lastIndex\<close> on; \<open>None\<close> is
  \<open>null\<close>.
\<close>

definition attr_exec ::
  "string \<Rightarrow> (string \<times> string option \<times> string option \<times> string) option" where
  "attr_exec s =
     (let s0 = dropWhile (\<lambda>c. \<not> is_ident c) s
      in if s0 = [] then None
         else (let key = takeWhile is_ident s0; r = dropWhile is_ident s0
               in case value_part r of
                    Some (g2, g3, r') \<Rightarrow> Some (key, g2, g3, r')
                  | None \<Rightarrow> Some (key, None, None, r)))"

lemma quoted_shorter: "quoted q s = Some (v, r) \<Longrightarrow> length r < length s"
proof -
  assume h: "quoted q s = Some (v, r)"
  then obtain c t where s: "s = c # t" and r: "r = tl (dropWhile (\<lambda>x. x \<noteq> q) t)"
    by (auto simp: quoted_def split: list.splits if_splits)
  have "length (dropWhile (\<lambda>x. x \<noteq> q) t) \<le> length t"
    by (rule length_dropWhile_le)
  then show ?thesis using s r by simp
qed

lemma value_part_shorter: "value_part s = Some (g2, g3, r) \<Longrightarrow> length r < length s"
proof -
  assume h: "value_part s = Some (g2, g3, r)"
  then obtain s2 where s2: "dropWhile is_space s = CHR ''='' # s2"
    by (auto simp: value_part_def split: list.splits if_splits)
  from h s2 obtain v where "quoted (CHR 0x27) (dropWhile is_space s2) = Some (v, r)
      \<or> quoted (CHR 0x22) (dropWhile is_space s2) = Some (v, r)"
    by (auto simp: value_part_def Let_def split: option.splits)
  then have "length r < length (dropWhile is_space s2)"
    by (auto dest: quoted_shorter)
  also have "\<dots> \<le> length s2" by (rule length_dropWhile_le)
  also have "\<dots> < length (dropWhile is_space s)" using s2 by simp
  also have "\<dots> \<le> length s" by (rule length_dropWhile_le)
  finally show ?thesis .
qed

lemma attr_exec_shorter: "attr_exec s = Some (key, g2, g3, r) \<Longrightarrow> length r < length s"
proof -
  assume h: "attr_exec s = Some (key, g2, g3, r)"
  define s0 where "s0 = dropWhile (\<lambda>c. \<not> is_ident c) s"
  from h have ne: "s0 \<noteq> []" by (auto simp: attr_exec_def s0_def Let_def split: if_splits)
  then have "is_ident (hd s0)" using hd_dropWhile [of "\<lambda>c. \<not> is_ident c" s]
    by (simp add: s0_def)
  with ne have run: "length (dropWhile is_ident s0) < length s0"
    by (cases s0) (auto simp: le_imp_less_Suc length_dropWhile_le)
  have le: "length s0 \<le> length s" unfolding s0_def by (rule length_dropWhile_le)
  from h ne have "r = dropWhile is_ident s0
      \<or> value_part (dropWhile is_ident s0) = Some (g2, g3, r)"
    by (auto simp: attr_exec_def s0_def Let_def split: if_splits option.splits)
  then have "length r \<le> length (dropWhile is_ident s0)"
    by (auto dest: value_part_shorter)
  with run le show ?thesis by simp
qed

text \<open>
  The loop \<open>while ((match = attrRegex.exec(tagString)) !== null)\<close>; \<open>s\<close> is the part of
  \<open>tagString\<close> from \<open>lastIndex\<close> on.
\<close>

function attr_loop :: "string \<Rightarrow> attributes \<Rightarrow> attributes" where
  "attr_loop s attrs =
     (case attr_exec s of
        None \<Rightarrow> attrs
      | Some (key, g2, g3, r) \<Rightarrow>
          (let val = (case g2 of Some v \<Rightarrow> v
                      | None \<Rightarrow> (case g3 of Some v \<Rightarrow> v | None \<Rightarrow> []))
           in attr_loop r (obj_set attrs key val)))"
  by pat_completeness auto
termination
  by (relation "measure (\<lambda>(s, attrs). length s)") (auto dest: attr_exec_shorter)

declare attr_loop.simps [simp del]

definition extractAttributes :: "string \<Rightarrow> attributes" where
  "extractAttributes tagString = attr_loop tagString []"

section \<open>Nodes and jsonToHtml\<close>

text \<open>
  The three node shapes the parser builds: \<open>{type: 'text', content}\<close>,
  \<open>{type: 'comment', content}\<close> and \<open>{type: 'element', tagName, attributes, children}\<close>.
  \<open>jsonToHtml\<close> returns the empty string for a node of any other type; \<open>htmlToJson\<close> builds
  none, and the model has none. For an element, the source appends the children only when
  \<open>node.children\<close> is a non-empty array, which is what \<open>concat\<close> does.
\<close>

datatype node =
    Text string
  | Comment string
  | Element string attributes "node list"

definition void_tags :: "string list" where
  "void_tags = [''br'', ''img'', ''input'', ''link'', ''meta'', ''hr'', ''source'', ''area'']"

definition render_attr :: "string \<times> string \<Rightarrow> string" where
  \<comment> \<open>the body of the loop \<open>for (const key in node.attributes)\<close>: what one attribute adds
      to \<open>attrString\<close>\<close>
  "render_attr = (\<lambda>(key, val). if val = [] then '' '' @ key
                                else '' '' @ key @ ''=\"'' @ val @ ''\"'')"

definition attr_string :: "attributes \<Rightarrow> string" where
  "attr_string attrs = concat (map render_attr (for_in attrs))"

fun jsonToHtml :: "node \<Rightarrow> string" where
  "jsonToHtml (Text content) = content"
| "jsonToHtml (Comment content) = ''<!-- '' @ content @ '' -->''"
| "jsonToHtml (Element tagName attrs children) =
     ''<'' @ tagName @ attr_string attrs @ ''>''
     @ (if tagName \<in> set void_tags then []
        else concat (map jsonToHtml children) @ ''</'' @ tagName @ ''>'')"

definition jsonToHtml_array :: "node list \<Rightarrow> string" where
  \<comment> \<open>the branch \<open>Array.isArray(jsonNode)\<close>: \<open>jsonNode.map(jsonToHtml).join('')\<close>\<close>
  "jsonToHtml_array nodes = concat (map jsonToHtml nodes)"

section \<open>htmlToJson\<close>

text \<open>
  One pass through the body of the main parsing loop at cursor \<open>index\<close> (with
  \<open>index < length html\<close>), written as three definitions along the numbered branches of
  the source. The result lists the nodes the pass pushes onto \<open>nodes\<close>, in
  order, and says whether the pass leaves the loop (\<open>break\<close>) or goes on (\<open>continue\<close>,
  or the end of the body) with a new cursor. \<open>rec\<close> is the function called for
  \<open>htmlToJson(innerHTML)\<close>.
\<close>

datatype step =
    Break "node list"
  | Continue "node list" nat

definition tag_name_match :: "string \<Rightarrow> string option" where
  \<comment> \<open>\<open>fullTagContent.match(/^([a-zA-Z0-9_-]+)/)\<close>: group 1, or \<open>None\<close> for \<open>null\<close>\<close>
  "tag_name_match s = (if takeWhile is_ident s = [] then None else Some (takeWhile is_ident s))"

text \<open>
  Branch 3 of the loop body (\<open>Handle Element Node\<close>), entered with the cursor on a \<open><\<close>
  that is not followed by \<open>/\<close>. \<open>texts\<close> is what the pass has pushed so far. The source
  tests \<open>isSelfClosing || endTagIndex === -1\<close>; the \<open>case\<close> on \<open>endTagIndex\<close> below
  has the same two outcomes.
\<close>

definition element_step ::
  "(string \<Rightarrow> node list) \<Rightarrow> string \<Rightarrow> nat \<Rightarrow> node list \<Rightarrow> step" where
  "element_step rec html index texts =
     (case indexOf html ''>'' index of
        None \<Rightarrow> Break texts
      | Some tagEnd \<Rightarrow>
          (let fullTagContent = trim (substring html (index + 1) tagEnd)
           in case tag_name_match fullTagContent of
                None \<Rightarrow> Continue texts (consume index 1)
              | Some m \<Rightarrow>
                  (let tagName = toLowerCase m;
                       attributesString =
                         trim (substring_from fullTagContent (length tagName));
                       attributes = extractAttributes attributesString;
                       index1 = consume index (int tagEnd - int index + 1);
                       endTag = ''</'' @ tagName @ ''>'';
                       endTagIndex = indexOf html endTag index1;
                       isSelfClosing = (endsWith fullTagContent (CHR ''/'')
                                        \<or> tagName \<in> set void_tags)
                   in case endTagIndex of
                        None \<Rightarrow> Continue (texts @ [Element tagName attributes []]) index1
                      | Some e \<Rightarrow>
                          if isSelfClosing
                          then Continue (texts @ [Element tagName attributes []]) index1
                          else
                            (let innerHTML = substring html index1 e;
                                 children =
                                   (if tagName = ''script''
                                    then (if length (trim innerHTML) > 0
                                          then [Text innerHTML] else [])
                                    else rec innerHTML);
                                 index2 = consume index1 (int (length innerHTML));
                                 index3 = consume index2 (int (length endTag))
                             in Continue (texts @ [Element tagName attributes children])
                                  index3))))"

text \<open>
  The loop body from \<open>index = nextOpenBracket\<close> on: the length check, branch 2
  (\<open>Handle Comment Node\<close>), branch 3, branch 4 (\<open>Handle Closing Tag\<close>) and the final
  \<open>consume(1)\<close>.
\<close>

definition tag_step ::
  "(string \<Rightarrow> node list) \<Rightarrow> string \<Rightarrow> nat \<Rightarrow> node list \<Rightarrow> step" where
  "tag_step rec html index texts =
     (if index + 1 \<ge> length html then Break texts
      else if substring html index (index + 4) = ''<!--'' then
        (case indexOf html ''-->'' index of
           Some commentEnd \<Rightarrow>
             (let index1 = consume index 4;
                  commentContent = trim (substring html index1 commentEnd);
                  index2 = consume index1 (int commentEnd - int index1 + 3)
              in Continue (texts @ [Comment commentContent]) index2)
         | None \<Rightarrow> Continue texts (consume index 1))
      else if char_at html index = Some (CHR ''<'')
              \<and> char_at html (index + 1) \<noteq> Some (CHR ''/'') then
        element_step rec html index texts
      else if char_at html index = Some (CHR ''<'')
              \<and> char_at html (index + 1) = Some (CHR ''/'') then
        Continue texts (consume index 1)
      else Continue texts (consume index 1))"

text \<open>The whole loop body: branch 1 (\<open>Handle Text Node\<close>), then the rest.\<close>

definition iteration :: "(string \<Rightarrow> node list) \<Rightarrow> string \<Rightarrow> nat \<Rightarrow> step" where
  "iteration rec html index =
     (case indexOf html ''<'' index of
        None \<Rightarrow>
          (let remainingText = trim (substring_from html index)
           in Break (if length remainingText > 0 then [Text remainingText] else []))
      | Some nextOpenBracket \<Rightarrow>
          (let textBeforeTag = trim (substring html index nextOpenBracket);
               texts = (if length textBeforeTag > 0 then [Text textBeforeTag] else [])
           in tag_step rec html nextOpenBracket texts))"

lemma find_sub_bound: "find_sub pat s = Some k \<Longrightarrow> k + length pat \<le> length s"
proof (induction s arbitrary: k)
  case Nil
  then show ?case by (auto split: if_splits)
next
  case (Cons c cs)
  show ?case
  proof (cases "take (length pat) (c # cs) = pat")
    case True
    then have "length (take (length pat) (c # cs)) = length pat" by simp
    then have "length pat \<le> length (c # cs)" by simp
    with True Cons.prems show ?thesis by simp
  next
    case False
    with Cons.prems obtain j where "find_sub pat cs = Some j" "k = Suc j" by auto
    with Cons.IH show ?thesis by fastforce
  qed
qed

lemma indexOf_ge: "indexOf html pat i = Some k \<Longrightarrow> i \<le> k"
  by (auto simp: indexOf_def)

lemma indexOf_bound:
  "indexOf html pat i = Some k \<Longrightarrow> pat \<noteq> [] \<Longrightarrow> k + length pat \<le> length html"
  by (cases "i \<le> length html") (auto simp: indexOf_def dest!: find_sub_bound)

lemma iteration_progress:
  assumes "iteration rec html index0 = Continue ns i'"
  shows "index0 < i'"
  using assms
  by (auto simp: iteration_def tag_step_def element_step_def Let_def consume_def
      split: option.splits if_splits dest!: indexOf_ge)

text \<open>
  The loop \<open>while (index < html.length)\<close>: the nodes pushed from cursor \<open>index\<close> on, in
  order. Every pass that goes on moves the cursor forward (\<open>iteration_progress\<close>), which
  is the termination argument.
\<close>

function scan :: "(string \<Rightarrow> node list) \<Rightarrow> string \<Rightarrow> nat \<Rightarrow> node list" where
  "scan rec html index =
     (if index < length html then
        (case iteration rec html index of
           Break ns \<Rightarrow> ns
         | Continue ns index' \<Rightarrow> ns @ scan rec html index')
      else [])"
  by pat_completeness auto
termination
  by (relation "measure (\<lambda>(rec, html, index). length html - index)")
     (auto dest: iteration_progress)

declare scan.simps [simp del]

lemma substring_shorter:
  assumes "0 < a" "a \<le> b" "b \<le> length html"
  shows "length (substring html a b) < length html"
  using assms by (auto simp: substring_def Let_def min_def max_def)

lemma iteration_cong:
  assumes "\<And>s. length s < length html \<Longrightarrow> rec s = rec' s"
  shows "iteration rec html index0 = iteration rec' html index0"
proof -
  have inner: "rec (substring html a b) = rec' (substring html a b)"
    if "0 < a" "a \<le> b" "b \<le> length html" for a b
    using that assms substring_shorter by blast
  have inner2: "rec (substring html (nat (int a + 1)) e) = rec' (substring html (nat (int a + 1)) e)"
    if "indexOf html (CHR ''<'' # p) (nat (int a + 1)) = Some e" for a e p
  proof (rule inner)
    show "0 < nat (int a + 1)" by simp
    show "nat (int a + 1) \<le> e" using that by (rule indexOf_ge)
    show "e \<le> length html" using indexOf_bound [OF that] by simp
  qed
  show ?thesis
    unfolding iteration_def tag_step_def element_step_def Let_def
    by (auto split: option.splits simp: consume_def intro!: inner2)
qed

lemma scan_cong [fundef_cong]:
  assumes "html = html'" and "index = index'"
    and "\<And>s. length s < length html' \<Longrightarrow> rec s = rec' s"
  shows "scan rec html index = scan rec' html' index'"
proof -
  have step: "(\<forall>s. length s < length h \<longrightarrow> r s = rec' s) \<Longrightarrow> scan r h i = scan rec' h i"
    for r h i
  proof (induction r h i rule: scan.induct)
    case (1 r h i)
    have it: "iteration r h i = iteration rec' h i"
      using "1.prems" by (intro iteration_cong) simp
    show ?case
    proof (cases "i < length h")
      case True
      show ?thesis
      proof (cases "iteration r h i")
        case (Break ns)
        then have r': "iteration rec' h i = Break ns" by (simp only: it [symmetric])
        have "scan r h i = ns" using True Break by (subst scan.simps) simp
        also have "ns = scan rec' h i" using True r' by (subst scan.simps) simp
        finally show ?thesis .
      next
        case (Continue ns i')
        then have r': "iteration rec' h i = Continue ns i'" by (simp only: it [symmetric])
        have ih: "scan r h i' = scan rec' h i'"
          using "1.IH" [OF True Continue] "1.prems" by simp
        have "scan r h i = ns @ scan r h i'" using True Continue by (subst scan.simps) simp
        also have "\<dots> = ns @ scan rec' h i'" by (simp only: ih)
        also have "\<dots> = scan rec' h i" using True r' by (subst (2) scan.simps) simp
        finally show ?thesis .
      qed
    next
      case False
      then show ?thesis by (simp add: scan.simps [of _ h i])
    qed
  qed
  from assms(3) have "\<forall>s. length s < length html' \<longrightarrow> rec s = rec' s" by blast
  then have "scan rec html' index' = scan rec' html' index'" by (rule step)
  then show ?thesis by (simp only: assms(1,2))
qed

text \<open>
  \<open>htmlToJson(html)\<close> runs the loop from cursor 0 and calls itself on \<open>innerHTML\<close>, which
  is shorter than \<open>html\<close>.
\<close>

function htmlToJson :: "string \<Rightarrow> node list" where
  "htmlToJson html = scan htmlToJson html 0"
  by pat_completeness auto
termination
  by (relation "measure length") auto

declare htmlToJson.simps [simp del]

section \<open>Definitions for the properties\<close>

text \<open>The result of a pass with its new cursor moved by \<open>i\<close>, and the nodes a pass pushes.\<close>

fun shift :: "nat \<Rightarrow> step \<Rightarrow> step" where
  "shift i (Break ns) = Break ns"
| "shift i (Continue ns j) = Continue ns (i + j)"

fun pushed :: "step \<Rightarrow> node list" where
  "pushed (Break ns) = ns"
| "pushed (Continue ns j) = ns"

text \<open>
  The loop with a bound on the number of times its condition is tested: \<open>None\<close> means the
  bound was reached before the loop ended.
\<close>

fun scan_fuel :: "nat \<Rightarrow> (string \<Rightarrow> node list) \<Rightarrow> string \<Rightarrow> nat \<Rightarrow> node list option" where
  "scan_fuel 0 rec html index = None"
| "scan_fuel (Suc n) rec html index =
     (if index < length html then
        (case iteration rec html index of
           Break ns \<Rightarrow> Some ns
         | Continue ns index' \<Rightarrow> map_option ((@) ns) (scan_fuel n rec html index'))
      else Some [])"

text \<open>
  \<open>void_childless n\<close>: in \<open>n\<close>, at every depth, an element whose tag name is in the void list
  has no children.
\<close>

fun void_childless :: "node \<Rightarrow> bool" where
  "void_childless (Text content) = True"
| "void_childless (Comment content) = True"
| "void_childless (Element tagName attrs children) =
     ((tagName \<in> set void_tags \<longrightarrow> children = []) \<and> list_all void_childless children)"

fun is_element :: "node \<Rightarrow> bool" where
  "is_element (Element tagName attrs children) = True"
| "is_element (Text content) = False"
| "is_element (Comment content) = False"

text \<open>
  The value the loop body of \<open>extractAttributes\<close> computes from capture groups 2 and 3, the
  successive matches of the loop, left to right, each with its groups 1, 2 and 3, and the
  loop body \<open>attributes[key] = value\<close> for one match.
\<close>

definition match_value :: "string option \<Rightarrow> string option \<Rightarrow> string" where
  "match_value g2 g3 =
     (case g2 of Some v \<Rightarrow> v | None \<Rightarrow> (case g3 of Some v \<Rightarrow> v | None \<Rightarrow> []))"

function attr_matches :: "string \<Rightarrow> (string \<times> string option \<times> string option) list" where
  "attr_matches s =
     (case attr_exec s of
        None \<Rightarrow> []
      | Some (key, g2, g3, r) \<Rightarrow> (key, g2, g3) # attr_matches r)"
  by pat_completeness auto
termination
  by (relation "measure length") (auto dest: attr_exec_shorter)

declare attr_matches.simps [simp del]

definition assign :: "attributes \<Rightarrow> string \<times> string option \<times> string option \<Rightarrow> attributes" where
  "assign attrs = (\<lambda>(key, g2, g3). obj_set attrs key (match_value g2 g3))"

text \<open>
  \<open>quoted_in v s\<close>: somewhere in \<open>s\<close> the text \<open>v\<close> stands between two equal quote
  characters (single or double) that follow an \<open>=\<close> and optional white space, and \<open>v\<close>
  does not contain that quote character.
\<close>

definition quoted_in :: "string \<Rightarrow> string \<Rightarrow> bool" where
  "quoted_in v s = (\<exists>pre ws q post. s = pre @ ''='' @ ws @ q # v @ q # post
       \<and> list_all is_space ws \<and> (q = CHR 0x27 \<or> q = CHR 0x22) \<and> q \<notin> set v)"























section \<open>The loop reads the input from the cursor on\<close>

text \<open>
  A pass at cursor \<open>i + k\<close> of \<open>html\<close> is the pass at cursor \<open>k\<close> of the rest of \<open>html\<close> from
  \<open>i\<close> on, with every cursor moved by \<open>i\<close>.
\<close>

lemma consume_simps:
  "consume i (int n) = i + n"
  "consume i 1 = i + 1"
  "consume i 4 = i + 4"
  "consume i (int e - int i + 1) = e + 1"
  "consume i (int e - int i + 3) = e + 3"
  by (simp_all add: consume_def nat_add_distrib)

lemma indexOf_drop:
  "indexOf html p (i + k) = map_option ((+) i) (indexOf (drop i html) p k)"
  by (simp add: indexOf_def option.map_comp comp_def add.assoc add.commute [of k i])

lemma substring_drop:
  "i \<le> length html \<Longrightarrow> substring html (i + a) (i + b) = substring (drop i html) a b"
  by (auto simp: substring_def Let_def min_def max_def add.commute [of _ i])

lemma substring_from_drop:
  "substring_from html (i + a) = substring_from (drop i html) a"
  by (simp add: substring_from_def add.commute)

lemma char_at_drop:
  "i \<le> length html \<Longrightarrow> char_at html (i + a) = char_at (drop i html) a"
  by (auto simp: char_at_def)

lemma element_step_drop:
  assumes i: "i \<le> length html"
  shows "element_step rec html (i + k) texts = shift i (element_step rec (drop i html) k texts)"
proof -
  define d where "d = drop i html"
  show ?thesis
  proof (cases "indexOf d ''>'' k")
    case None
    then show ?thesis
      by (simp add: element_step_def indexOf_drop d_def)
  next
    case (Some te)
    then have te: "indexOf html ''>'' (i + k) = Some (i + te)"
      by (simp add: indexOf_drop d_def)
    have full: "substring html (i + k + 1) (i + te) = substring d (k + 1) te"
      using substring_drop [OF i, of "k + 1" te] by (simp add: d_def)
    define full_tag where "full_tag = trim (substring d (k + 1) te)"
    show ?thesis
    proof (cases "tag_name_match full_tag")
      case None
      then show ?thesis
        using Some te full
        by (simp add: element_step_def consume_simps d_def full_tag_def)
    next
      case (Some m)
      have e: "indexOf html p (i + te + 1) = map_option ((+) i) (indexOf d p (te + 1))" for p
        using indexOf_drop [of html p i "te + 1"] by (simp add: d_def)
      have inner: "substring html (i + te + 1) (i + x) = substring d (te + 1) x" for x
        using substring_drop [OF i, of "te + 1" x] by (simp add: d_def)
      show ?thesis
        using Some \<open>indexOf d ''>'' k = Some te\<close> te full e inner
        unfolding element_step_def Let_def consume_simps d_def [symmetric]
        by (simp add: full_tag_def [symmetric] d_def [symmetric] split: option.splits)
    qed
  qed
qed

lemma tag_step_drop:
  assumes i: "i \<le> length html"
  shows "tag_step rec html (i + k) texts = shift i (tag_step rec (drop i html) k texts)"
proof -
  define d where "d = drop i html"
  have len: "(length html \<le> i + k + 1) = (length d \<le> k + 1)"
    using i by (auto simp: d_def)
  have sub4: "substring html (i + k) (i + k + 4) = substring d k (k + 4)"
    using substring_drop [OF i, of k "k + 4"] by (simp add: d_def add.assoc)
  have c0: "char_at html (i + k) = char_at d k"
    using char_at_drop [OF i, of k] by (simp add: d_def)
  have c1: "char_at html (i + k + 1) = char_at d (k + 1)"
    using char_at_drop [OF i, of "k + 1"] by (simp add: d_def add.assoc)
  have io: "indexOf html ''-->'' (i + k) = map_option ((+) i) (indexOf d ''-->'' k)"
    by (simp add: indexOf_drop d_def)
  have com: "substring html (i + k + 4) (i + x) = substring d (k + 4) x" for x
    using substring_drop [OF i, of "k + 4" x] by (simp add: d_def add.assoc)
  show ?thesis
    using len sub4 c0 c1 io com element_step_drop [OF i, of rec k texts]
    unfolding tag_step_def Let_def consume_simps d_def [symmetric]
    by (simp add: d_def [symmetric] split: option.splits)
qed

lemma iteration_drop:
  assumes i: "i \<le> length html"
  shows "iteration rec html (i + k) = shift i (iteration rec (drop i html) k)"
proof -
  define d where "d = drop i html"
  have io: "indexOf html ''<'' (i + k) = map_option ((+) i) (indexOf d ''<'' k)"
    by (simp add: indexOf_drop d_def)
  have sf: "substring_from html (i + k) = substring_from d k"
    by (simp add: substring_from_drop d_def)
  have ss: "substring html (i + k) (i + x) = substring d k x" for x
    using substring_drop [OF i, of k x] by (simp add: d_def)
  show ?thesis
    using io sf ss tag_step_drop [OF i, of rec _ _]
    unfolding iteration_def Let_def d_def [symmetric]
    by (simp add: d_def [symmetric] split: option.splits)
qed

lemma scan_drop:
  "i \<le> length html \<Longrightarrow> scan rec html (i + k) = scan rec (drop i html) k"
proof (induction rec html "i + k" arbitrary: k rule: scan.induct)
  case (1 rec html)
  show ?case
  proof (cases "iteration rec (drop i html) k")
    case (Break ns)
    then show ?thesis
      using 1(2) iteration_drop [OF 1(2), of rec k]
      by (auto simp: scan.simps [of rec html "i + k"] scan.simps [of rec "drop i html" k])
  next
    case (Continue ns j)
    have it: "iteration rec html (i + k) = Continue ns (i + j)"
      using Continue iteration_drop [OF 1(2), of rec k] by simp
    show ?thesis
    proof (cases "i + k < length html")
      case True
      from 1(1) [OF True it 1(2)] have "scan rec html (i + j) = scan rec (drop i html) j" .
      then show ?thesis
        using True it Continue 1(2)
        by (auto simp: scan.simps [of rec html "i + k"] scan.simps [of rec "drop i html" k])
    next
      case False
      then show ?thesis
        using 1(2)
        by (auto simp: scan.simps [of rec html "i + k"] scan.simps [of rec "drop i html" k])
    qed
  qed
qed

section \<open>Termination of the scanning loop\<close>

lemma scan_fuel_enough:
  "length html - index < n \<Longrightarrow> scan_fuel n rec html index = Some (scan rec html index)"
proof (induction n arbitrary: index)
  case 0
  then show ?case by simp
next
  case (Suc n)
  show ?case
  proof (cases "index < length html")
    case False
    then show ?thesis by (simp add: scan.simps [of rec html index])
  next
    case True
    show ?thesis
    proof (cases "iteration rec html index")
      case (Break ns)
      with True show ?thesis by (simp add: scan.simps [of rec html index])
    next
      case (Continue ns index')
      then have "index < index'" by (rule iteration_progress)
      with True Suc.prems have "length html - index' < n" by arith
      then have "scan_fuel n rec html index' = Some (scan rec html index')" by (rule Suc.IH)
      with True Continue show ?thesis by (simp add: scan.simps [of rec html index])
    qed
  qed
qed

lemma substring_length_le:
  "a \<le> b \<Longrightarrow> b \<le> length s \<Longrightarrow> length (substring s a b) = b - a"
  by (auto simp: substring_def Let_def min_def max_def)

lemma indexOf_span:
  assumes "indexOf html p a = Some e" and "p \<noteq> []"
  shows "a \<le> e \<and> e + length p \<le> length html \<and> length (substring html a e) = e - a"
proof -
  from assms have "a \<le> e" "e + length p \<le> length html"
    by (auto dest: indexOf_ge indexOf_bound)
  then show ?thesis by (simp add: substring_length_le)
qed

lemma element_step_bound:
  assumes "element_step rec html j texts = Continue ns i'" and "Suc j < length html"
  shows "i' \<le> length html"
  using assms
  unfolding element_step_def Let_def consume_simps
  by (auto split: option.splits if_splits dest!: indexOf_span)

lemma tag_step_bound:
  assumes "tag_step rec html j texts = Continue ns i'"
  shows "i' \<le> length html"
  using assms
  unfolding tag_step_def Let_def consume_simps
  by (auto split: option.splits if_splits dest!: indexOf_span dest: element_step_bound)

lemma iteration_bound:
  assumes "iteration rec html index = Continue ns i'"
  shows "i' \<le> length html"
  using assms
  by (auto simp: iteration_def Let_def split: option.splits dest: tag_step_bound)

text \<open>
  C2. A pass of the loop body at a cursor inside \<open>html\<close> either leaves the loop or moves
  the cursor forward by at least one character, and never beyond the end of \<open>html\<close>;
  so the loop ends within \<open>length html - index + 1\<close> tests of its condition, whatever
  function handles the inner spans. \<open>htmlToJson\<close> itself is defined by recursion on
  strictly shorter inner spans (\<open>iteration_cong\<close> is the fact its termination proof rests
  on), hence total, and its loop ends within \<open>length html + 1\<close> tests.
\<close>

theorem C2_progress:
  assumes "index < length html"
  shows "(case iteration rec html index of
            Break ns \<Rightarrow> True
          | Continue ns index' \<Rightarrow> index + 1 \<le> index' \<and> index' \<le> length html)
         \<and> scan_fuel (length html - index + 1) rec html index = Some (scan rec html index)
         \<and> scan_fuel (length html + 1) htmlToJson html 0 = Some (htmlToJson html)"
proof (intro conjI)
  show "case iteration rec html index of
            Break ns \<Rightarrow> True
          | Continue ns index' \<Rightarrow> index + 1 \<le> index' \<and> index' \<le> length html"
    using iteration_progress [of rec html index] iteration_bound [of rec html index]
    by (auto split: step.splits)
  show "scan_fuel (length html - index + 1) rec html index = Some (scan rec html index)"
    by (rule scan_fuel_enough) simp
  have "scan_fuel (length html + 1) htmlToJson html 0 = Some (scan htmlToJson html 0)"
    by (rule scan_fuel_enough) simp
  then show "scan_fuel (length html + 1) htmlToJson html 0 = Some (htmlToJson html)"
    by (simp add: htmlToJson.simps [of html])
qed

theorem C2_progress_witness:
  "(0::nat) < length ''a<b>x</b>''
   \<and> iteration htmlToJson ''a<b>x</b>'' 0 = Continue [Text ''a'', Element ''b'' [] [Text ''x'']] 9
   \<and> (0::nat) + 1 \<le> 9 \<and> 9 \<le> length ''a<b>x</b>''
   \<and> scan_fuel (length ''a<b>x</b>'' + 1) htmlToJson ''a<b>x</b>'' 0
       = Some (htmlToJson ''a<b>x</b>'')"
proof -
  have h: "(0::nat) < length ''a<b>x</b>''" by simp
  have i: "iteration htmlToJson ''a<b>x</b>'' 0
      = Continue [Text ''a'', Element ''b'' [] [Text ''x'']] 9"
    by code_simp
  note t = C2_progress [OF h, of htmlToJson]
  from t [THEN conjunct1] i have b: "(0::nat) + 1 \<le> 9 \<and> 9 \<le> length ''a<b>x</b>''"
    by simp
  from t [THEN conjunct2, THEN conjunct2]
  have f: "scan_fuel (length ''a<b>x</b>'' + 1) htmlToJson ''a<b>x</b>'' 0
      = Some (htmlToJson ''a<b>x</b>'')" .
  from h i b f show ?thesis by blast
qed

section \<open>Void elements\<close>

lemma element_step_void:
  assumes "list_all void_childless texts" and "\<And>s. list_all void_childless (rec s)"
  shows "list_all void_childless (pushed (element_step rec html j texts))"
  using assms
  unfolding element_step_def Let_def
  by (auto split: option.splits)

lemma tag_step_void:
  assumes "list_all void_childless texts" and "\<And>s. list_all void_childless (rec s)"
  shows "list_all void_childless (pushed (tag_step rec html j texts))"
  using assms element_step_void [of texts rec html j]
  unfolding tag_step_def Let_def
  by (auto split: option.splits)

lemma iteration_void:
  assumes "\<And>s. list_all void_childless (rec s)"
  shows "list_all void_childless (pushed (iteration rec html j))"
  using assms tag_step_void [of _ rec html]
  unfolding iteration_def Let_def
  by (auto split: option.splits)

lemma scan_void:
  assumes "\<And>s. list_all void_childless (rec s)"
  shows "list_all void_childless (scan rec html j)"
  using assms
proof (induction rec html j rule: scan.induct)
  case (1 rec html index)
  have it: "list_all void_childless (pushed (iteration rec html index))"
    using "1.prems" by (rule iteration_void)
  show ?case
  proof (cases "index < length html")
    case False
    then show ?thesis by (simp add: scan.simps [of rec html index])
  next
    case True
    show ?thesis
    proof (cases "iteration rec html index")
      case (Break ns)
      with True it show ?thesis by (simp add: scan.simps [of rec html index])
    next
      case (Continue ns index')
      from "1.IH" [OF True Continue "1.prems"]
      have "list_all void_childless (scan rec html index')" .
      with True it Continue show ?thesis by (simp add: scan.simps [of rec html index])
    qed
  qed
qed

lemma htmlToJson_void: "list_all void_childless (htmlToJson html)"
proof (induction html rule: length_induct)
  case (1 html)
  define rec where "rec s = (if length s < length html then htmlToJson s else [])" for s
  have "list_all void_childless (rec s)" for s
    using 1 by (simp add: rec_def)
  then have "list_all void_childless (scan rec html 0)" by (rule scan_void)
  moreover have "scan htmlToJson html 0 = scan rec html 0"
    by (rule scan_cong) (simp_all add: rec_def)
  ultimately show ?case by (simp add: htmlToJson.simps [of html])
qed

lemma htmlToJson_step:
  assumes "iteration htmlToJson html 0 = Continue ns j" and "html \<noteq> []"
  shows "htmlToJson html = ns @ htmlToJson (drop j html)"
proof -
  from assms(1) have j: "j \<le> length html" by (rule iteration_bound)
  have "scan htmlToJson html j = scan htmlToJson (drop j html) 0"
    using scan_drop [OF j, of htmlToJson 0] by simp
  with assms show ?thesis
    by (simp add: htmlToJson.simps [of html] htmlToJson.simps [of "drop j html"]
        scan.simps [of htmlToJson html 0])
qed

lemma input_tag:
  "iteration rec (''<input type=\"text\" required>'' @ rest) 0
   = Continue [Element ''input'' [(''type'', ''text''), (''required'', [])] []] 28"
proof -
  have t: "trim ''input type=\"text\" required'' = ''input type=\"text\" required''"
    and e: "trim [] = []"
    by code_simp+
  have n: "tag_name_match ''input type=\"text\" required'' = Some ''input''"
    by code_simp
  have a: "extractAttributes (trim '' type=\"text\" required'')
      = [(''type'', ''text''), (''required'', [])]"
    by code_simp
  have l: "toLowerCase ''input'' = ''input''" by code_simp
  have v: "''input'' \<in> set void_tags" by code_simp
  show ?thesis
    unfolding iteration_def tag_step_def element_step_def Let_def consume_simps
    by (simp add: indexOf_def substring_def char_at_def substring_from_def t e n a l v
        split: option.splits)
qed

text \<open>
  C7. In the result of \<open>htmlToJson\<close>, at every depth, an element whose tag name is in the
  void list has no children; \<open>jsonToHtml\<close> renders such an element as its opening tag
  only, whatever its children; and \<open><input type="text" required>\<close> followed by any
  content parses to a childless element followed by the parse of that content.
\<close>

theorem C7_void_elements:
  "list_all void_childless (htmlToJson html)
   \<and> (tagName \<in> set void_tags \<longrightarrow>
        jsonToHtml (Element tagName attrs children) = ''<'' @ tagName @ attr_string attrs @ ''>'')
   \<and> htmlToJson (''<input type=\"text\" required>'' @ rest)
       = Element ''input'' [(''type'', ''text''), (''required'', [])] [] # htmlToJson rest"
proof (intro conjI)
  show "list_all void_childless (htmlToJson html)" by (rule htmlToJson_void)
  show "tagName \<in> set void_tags \<longrightarrow>
        jsonToHtml (Element tagName attrs children) = ''<'' @ tagName @ attr_string attrs @ ''>''"
    by simp
  show "htmlToJson (''<input type=\"text\" required>'' @ rest)
       = Element ''input'' [(''type'', ''text''), (''required'', [])] [] # htmlToJson rest"
    using htmlToJson_step [OF input_tag, of rest] by simp
qed

theorem C7_void_elements_witness:
  "list_all void_childless (htmlToJson ''<br>x</br>'')
   \<and> ''br'' \<in> set void_tags
   \<and> jsonToHtml (Element ''br'' [] [Text ''x'']) = ''<br>''
   \<and> htmlToJson ''<input type=\"text\" required><p>hi</p>''
       = [Element ''input'' [(''type'', ''text''), (''required'', [])] [],
          Element ''p'' [] [Text ''hi'']]"
proof -
  have v: "''br'' \<in> set void_tags" by code_simp
  have p: "htmlToJson ''<p>hi</p>'' = [Element ''p'' [] [Text ''hi'']]"
    by code_simp
  have a: "attr_string [] = []" by code_simp
  from C7_void_elements [of "''<br>x</br>''" "''br''" "[]" "[Text ''x'']" "''<p>hi</p>''"] v p a
  show ?thesis by simp
qed

section \<open>Closing tags\<close>

text \<open>
  C3. The closing tag is searched with \<open>indexOf\<close> for the literal \<open></tagName>\<close> built from
  the lowercased tag name, and \<open>indexOf\<close> compares code units exactly. In \<open><DIV>x</DIV>\<close>
  the literal \<open></div>\<close> does not occur, so the element is pushed without children; the
  loop then pushes the text \<open>x\<close>, skips the \<open><\<close> of \<open></DIV>\<close> and pushes the rest of the
  closing tag as text.
\<close>

theorem C3_uppercase_closing_tag:
  "htmlToJson ''<DIV>x</DIV>'' = [Element ''div'' [] [], Text ''x'', Text ''/DIV>'']"
  by code_simp

text \<open>
  C4. On \<open></div>\<close> the closing-tag branch consumes only the \<open><\<close>; the next pass finds no
  further \<open><\<close> and pushes the remaining \<open>/div>\<close> as a text node, so the result is not
  empty.
\<close>

theorem C4_stray_closing_tag:
  "htmlToJson ''</div>'' = [Text ''/div>'']"
  by code_simp

text \<open>
  C5. On \<open><a><a></a></a>\<close> the outer element pairs with the first \<open></a>\<close>: its inner span
  is \<open><a>\<close>, so its only child is a childless element \<open>a\<close>, and it is the first node of
  the result. No node after it is an element.
\<close>

theorem C5_first_match:
  "take 1 (htmlToJson ''<a><a></a></a>'') = [Element ''a'' [] [Element ''a'' [] []]]
   \<and> filter is_element (drop 1 (htmlToJson ''<a><a></a></a>'')) = []"
  by code_simp

text \<open>
  C5, as stated: a second \<open><a></a>\<close> would be an element among the siblings of the first
  node. The only sibling is a text node.
\<close>

theorem C5_sibling_is_text:
  "tl (htmlToJson ''<a><a></a></a>'') = [Text ''/a>'']"
  by code_simp

section \<open>Attribute extraction\<close>

lemma attr_loop_foldl: "attr_loop s attrs = foldl assign attrs (attr_matches s)"
proof (induction s attrs rule: attr_loop.induct)
  case (1 s attrs)
  show ?case
  proof (cases "attr_exec s")
    case None
    then show ?thesis by (simp add: attr_loop.simps [of s] attr_matches.simps [of s])
  next
    case (Some m)
    obtain key g2 g3 r where m: "m = (key, g2, g3, r)" by (cases m) auto
    from "1.IH" [OF Some [unfolded m] refl refl refl refl]
    show ?thesis using Some m
      by (simp add: attr_loop.simps [of s] attr_matches.simps [of s] assign_def match_value_def)
  qed
qed

lemma map_of_update_key: "map_of (update_key k v attrs) = (map_of attrs)(k \<mapsto> v)"
  by (induction k v attrs rule: update_key.induct) (auto simp: fun_eq_iff)

lemma keys_update_key:
  "set (map fst (update_key k v attrs)) = insert k (set (map fst attrs))"
  by (induction k v attrs rule: update_key.induct) auto

lemma distinct_update_key:
  "distinct (map fst attrs) \<Longrightarrow> distinct (map fst (update_key k v attrs))"
proof (induction attrs)
  case Nil
  then show ?case by simp
next
  case (Cons p ps)
  obtain k' v' where p: "p = (k', v')" by (cases p)
  from Cons have d: "distinct (map fst (update_key k v ps))" and n: "k' \<notin> set (map fst ps)"
    by (auto simp: p)
  show ?case
  proof (cases "k' = k")
    case True
    with Cons.prems show ?thesis by (simp add: p)
  next
    case False
    with n have "k' \<notin> set (map fst (update_key k v ps))"
      by (simp only: keys_update_key) simp
    with d False show ?thesis by (simp add: p)
  qed
qed

lemma set_update_key: "set (update_key k v attrs) \<subseteq> insert (k, v) (set attrs)"
  by (induction k v attrs rule: update_key.induct) auto

lemma map_of_assign:
  "map_of (assign attrs (key, g2, g3)) =
     (if key = ''__proto__'' then map_of attrs else (map_of attrs)(key \<mapsto> match_value g2 g3))"
  by (simp add: assign_def obj_set_def map_of_update_key)

lemma foldl_assign_lookup:
  "map_of (foldl assign attrs ms) k =
     (if k = ''__proto__'' then map_of attrs k
      else (case map_of (rev (map (\<lambda>(key, g2, g3). (key, match_value g2 g3)) ms)) k of
              Some v \<Rightarrow> Some v
            | None \<Rightarrow> map_of attrs k))"
proof (induction ms arbitrary: attrs)
  case Nil
  then show ?case by simp
next
  case (Cons m ms)
  obtain key g2 g3 where m: "m = (key, g2, g3)" by (cases m)
  show ?case
  proof (cases "k = ''__proto__''")
    case True
    with Cons.IH [of "assign attrs m"] show ?thesis by (simp add: m map_of_assign)
  next
    case False
    with Cons.IH [of "assign attrs m"] show ?thesis
      by (simp add: m map_of_assign map_add_def split: option.splits)
  qed
qed

lemma foldl_assign_distinct:
  "distinct (map fst attrs) \<Longrightarrow> distinct (map fst (foldl assign attrs ms))"
proof (induction ms arbitrary: attrs)
  case Nil
  then show ?case by simp
next
  case (Cons m ms)
  obtain key g2 g3 where m: "m = (key, g2, g3)" by (cases m)
  from Cons.prems have "distinct (map fst (assign attrs m))"
    by (simp add: m assign_def obj_set_def distinct_update_key)
  then show ?case by (simp add: Cons.IH)
qed

text \<open>
  C8. \<open>extractAttributes\<close> performs the assignment \<open>attributes[key] = value\<close> for the
  matches in order from left to right. Therefore the value stored under a key is the value
  of the last match with that key, every key occurs once, and
  \<open>extractAttributes('id="a" id="b")\<close> is \<open>{id: "b"}\<close>. (The key \<open>__proto__\<close> is never
  stored: see \<open>obj_set\<close>.)
\<close>

theorem C8_last_write_wins:
  "extractAttributes s = foldl assign [] (attr_matches s)
   \<and> map_of (extractAttributes s) k =
       (if k = ''__proto__'' then None
        else map_of (rev (map (\<lambda>(key, g2, g3). (key, match_value g2 g3)) (attr_matches s))) k)
   \<and> distinct (map fst (extractAttributes s))
   \<and> extractAttributes ''id=\"a\" id=\"b\"'' = [(''id'', ''b'')]"
proof (intro conjI)
  show "extractAttributes s = foldl assign [] (attr_matches s)"
    by (simp add: extractAttributes_def attr_loop_foldl)
  show "map_of (extractAttributes s) k =
       (if k = ''__proto__'' then None
        else map_of (rev (map (\<lambda>(key, g2, g3). (key, match_value g2 g3)) (attr_matches s))) k)"
    by (simp add: extractAttributes_def attr_loop_foldl foldl_assign_lookup split: option.splits)
  show "distinct (map fst (extractAttributes s))"
    by (simp add: extractAttributes_def attr_loop_foldl foldl_assign_distinct)
  show "extractAttributes ''id=\"a\" id=\"b\"'' = [(''id'', ''b'')]"
    by code_simp
qed

lemma attr_exec_Nil: "attr_exec [] = None"
  by (simp add: attr_exec_def)

lemma attr_exec_ident:
  assumes "name \<noteq> []" and "list_all is_ident name" and "value_part rest = None"
    and "rest = [] \<or> \<not> is_ident (hd rest)"
  shows "attr_exec (name @ rest) = Some (name, None, None, rest)"
proof -
  from assms(1,2) have hd: "is_ident (hd name)" by (cases name) auto
  with assms(1) have d: "dropWhile (\<lambda>c. \<not> is_ident c) (name @ rest) = name @ rest"
    by (cases name) auto
  from assms(2) have all: "\<forall>c \<in> set name. is_ident c" by (simp add: list_all_iff)
  from assms(4) have tr: "takeWhile is_ident rest = []" by (cases rest) auto
  from assms(4) have dr: "dropWhile is_ident rest = rest" by (cases rest) auto
  from all tr have t: "takeWhile is_ident (name @ rest) = name"
    by (simp add: takeWhile_append2)
  from all dr have r: "dropWhile is_ident (name @ rest) = rest"
    by (simp add: dropWhile_append2)
  from assms(1) have ne: "name @ rest \<noteq> []" by simp
  show ?thesis
    unfolding attr_exec_def Let_def d t r using ne assms(3) by simp
qed

lemma attr_matches_name:
  assumes "name \<noteq> []" and "list_all is_ident name"
  shows "attr_matches name = [(name, None, None)]"
proof -
  have "value_part [] = None" by (simp add: value_part_def)
  with assms have "attr_exec (name @ []) = Some (name, None, None, [])"
    by (intro attr_exec_ident) simp_all
  then show ?thesis
    by (simp add: attr_matches.simps [of name] attr_matches.simps [of "[]"] attr_exec_Nil)
qed

lemma value_part_unquoted:
  assumes "tok \<noteq> []" and "list_all is_ident tok"
  shows "value_part (CHR ''='' # tok) = None"
proof -
  from assms obtain c cs where tok: "tok = c # cs" and c: "is_ident c" by (cases tok) auto
  have sp: "\<not> is_space (CHR ''='')" by (simp add: is_space_def)
  from c have nsp: "\<not> is_space c" by (auto simp: is_ident_def is_space_def Let_def)
  from c have q1: "c \<noteq> CHR 0x27" and q2: "c \<noteq> CHR 0x22"
    by (auto simp: is_ident_def Let_def)
  show ?thesis
    using sp nsp q1 q2 by (simp add: value_part_def tok quoted_def)
qed

lemma attr_matches_unquoted:
  assumes "k \<noteq> []" and "list_all is_ident k" and "tok \<noteq> []" and "list_all is_ident tok"
  shows "attr_matches (k @ ''='' @ tok) = [(k, None, None), (tok, None, None)]"
proof -
  have eq: "\<not> is_ident (CHR ''='')" by (simp add: is_ident_def)
  have 1: "attr_exec (k @ (CHR ''='' # tok)) = Some (k, None, None, CHR ''='' # tok)"
    using assms eq by (intro attr_exec_ident value_part_unquoted) simp_all
  from assms(3,4) have hd: "is_ident (hd tok)" by (cases tok) auto
  have "attr_exec (CHR ''='' # tok) = attr_exec tok"
    using eq by (simp add: attr_exec_def)
  moreover have "attr_exec (tok @ []) = Some (tok, None, None, [])"
    using assms by (intro attr_exec_ident) (simp_all add: value_part_def)
  ultimately have 2: "attr_exec (CHR ''='' # tok) = Some (tok, None, None, [])" by simp
  show ?thesis
    using 1 2
    by (simp add: attr_matches.simps [of "k @ CHR ''='' # tok"]
        attr_matches.simps [of "CHR ''='' # tok"] attr_matches.simps [of "[]"] attr_exec_Nil)
qed

lemma quoted_Some:
  assumes "quoted q s = Some (v, r)"
  shows "s = q # v @ q # r \<and> q \<notin> set v"
proof -
  from assms obtain t where s: "s = q # t" and q: "q \<in> set t"
    and v: "v = takeWhile (\<lambda>x. x \<noteq> q) t" and r: "r = tl (dropWhile (\<lambda>x. x \<noteq> q) t)"
    by (auto simp: quoted_def split: list.splits if_splits)
  from q have ne: "dropWhile (\<lambda>x. x \<noteq> q) t \<noteq> []" by (simp add: dropWhile_eq_Nil_conv)
  then have "hd (dropWhile (\<lambda>x. x \<noteq> q) t) = q"
    using hd_dropWhile [of "\<lambda>x. x \<noteq> q" t] by simp
  with ne r have "dropWhile (\<lambda>x. x \<noteq> q) t = q # r" by (cases "dropWhile (\<lambda>x. x \<noteq> q) t") auto
  then have "t = v @ q # r" using takeWhile_dropWhile_id [of "\<lambda>x. x \<noteq> q" t] v by simp
  moreover have "q \<notin> set v" unfolding v by (auto dest: set_takeWhileD)
  ultimately show ?thesis using s by simp
qed

lemma quoted_in_prefix: "quoted_in v s \<Longrightarrow> quoted_in v (p @ s)"
  unfolding quoted_in_def by (metis append.assoc)

lemma quoted_in_suffix: "quoted_in v s \<Longrightarrow> quoted_in v (s @ p)"
  unfolding quoted_in_def
  by (metis append.assoc append_Cons)

lemma value_part_Some:
  assumes "value_part s = Some (g2, g3, r)"
  shows "\<exists>p. s = p @ r \<and> quoted_in (match_value g2 g3) p"
proof -
  from assms obtain s2 where s2: "dropWhile is_space s = CHR ''='' # s2"
    by (auto simp: value_part_def split: list.splits if_splits)
  define ws1 where "ws1 = takeWhile is_space s"
  define ws2 where "ws2 = takeWhile is_space s2"
  define s3 where "s3 = dropWhile is_space s2"
  have s: "s = ws1 @ CHR ''='' # ws2 @ s3"
    using takeWhile_dropWhile_id [of is_space s] takeWhile_dropWhile_id [of is_space s2] s2
    by (simp add: ws1_def ws2_def s3_def)
  have ws2: "list_all is_space ws2"
    unfolding ws2_def list_all_iff by (auto dest: set_takeWhileD)
  from assms s2 obtain q v where q: "quoted q s3 = Some (v, r)"
    and qq: "q = CHR 0x27 \<or> q = CHR 0x22" and mv: "match_value g2 g3 = v"
    by (auto simp: value_part_def Let_def s3_def match_value_def split: option.splits)
  from quoted_Some [OF q] have s3: "s3 = q # v @ q # r" and nq: "q \<notin> set v" by simp_all
  have "s = (ws1 @ ''='' @ ws2 @ q # v @ [q]) @ r" using s s3 by simp
  moreover have "quoted_in v (ws1 @ ''='' @ ws2 @ q # v @ [q])"
    unfolding quoted_in_def using ws2 qq nq
    by (intro exI [of _ ws1] exI [of _ ws2] exI [of _ q] exI [of _ "[]"]) simp
  ultimately show ?thesis using mv by blast
qed

lemma attr_exec_Some:
  assumes "attr_exec s = Some (key, g2, g3, r)"
  shows "\<exists>p. s = p @ r \<and> (match_value g2 g3 \<noteq> [] \<longrightarrow> quoted_in (match_value g2 g3) p)"
proof -
  define s0 where "s0 = dropWhile (\<lambda>c. \<not> is_ident c) s"
  define r0 where "r0 = dropWhile is_ident s0"
  have s: "s = takeWhile (\<lambda>c. \<not> is_ident c) s @ takeWhile is_ident s0 @ r0"
    by (simp add: s0_def r0_def)
  from assms have c: "(value_part r0 = Some (g2, g3, r)) \<or> (g2 = None \<and> g3 = None \<and> r = r0)"
    by (auto simp: attr_exec_def Let_def s0_def r0_def split: if_splits option.splits)
  then show ?thesis
  proof
    assume "value_part r0 = Some (g2, g3, r)"
    from value_part_Some [OF this] obtain p where p: "r0 = p @ r"
      and qi: "quoted_in (match_value g2 g3) p" by blast
    have "s = (takeWhile (\<lambda>c. \<not> is_ident c) s @ takeWhile is_ident s0 @ p) @ r"
      using s p by simp
    moreover have "quoted_in (match_value g2 g3)
        ((takeWhile (\<lambda>c. \<not> is_ident c) s @ takeWhile is_ident s0) @ p)"
      using qi by (rule quoted_in_prefix)
    ultimately show ?thesis by (metis append.assoc)
  next
    assume "g2 = None \<and> g3 = None \<and> r = r0"
    then show ?thesis using s by (auto simp: match_value_def intro: exI [of _ "takeWhile (\<lambda>c. \<not> is_ident c) s @ takeWhile is_ident s0"])
  qed
qed

lemma attr_matches_quoted:
  "(key, g2, g3) \<in> set (attr_matches s) \<Longrightarrow> match_value g2 g3 \<noteq> []
    \<Longrightarrow> quoted_in (match_value g2 g3) s"
proof (induction s rule: attr_matches.induct)
  case (1 s)
  show ?case
  proof (cases "attr_exec s")
    case None
    with "1.prems" show ?thesis by (simp add: attr_matches.simps [of s])
  next
    case (Some m)
    obtain key' g2' g3' r where m: "m = (key', g2', g3', r)" by (cases m) auto
    from attr_exec_Some [OF Some [unfolded m]] obtain p where s: "s = p @ r"
      and qi: "match_value g2' g3' \<noteq> [] \<longrightarrow> quoted_in (match_value g2' g3') p" by blast
    from "1.prems"(1) Some m
    have "(key, g2, g3) = (key', g2', g3') \<or> (key, g2, g3) \<in> set (attr_matches r)"
      by (simp add: attr_matches.simps [of s])
    then show ?thesis
    proof
      assume "(key, g2, g3) = (key', g2', g3')"
      with qi "1.prems"(2) have "quoted_in (match_value g2 g3) p" by simp
      then show ?thesis unfolding s by (rule quoted_in_suffix)
    next
      assume "(key, g2, g3) \<in> set (attr_matches r)"
      from "1.IH" [OF Some [unfolded m] refl refl refl this "1.prems"(2)]
      have "quoted_in (match_value g2 g3) r" .
      then show ?thesis unfolding s by (rule quoted_in_prefix)
    qed
  qed
qed

lemma foldl_assign_set:
  "(k, v) \<in> set (foldl assign attrs ms) \<Longrightarrow>
     (k, v) \<in> set attrs \<or> (\<exists>g2 g3. (k, g2, g3) \<in> set ms \<and> v = match_value g2 g3)"
proof (induction ms arbitrary: attrs)
  case Nil
  then show ?case by simp
next
  case (Cons m ms)
  obtain key g2 g3 where m: "m = (key, g2, g3)" by (cases m)
  from Cons.IH [of "assign attrs m"] Cons.prems
  have "(k, v) \<in> set (assign attrs m) \<or> (\<exists>g2 g3. (k, g2, g3) \<in> set ms \<and> v = match_value g2 g3)"
    by simp
  moreover have "set (assign attrs m) \<subseteq> insert (key, match_value g2 g3) (set attrs)"
    using set_update_key [of key "match_value g2 g3" attrs]
    by (auto simp: m assign_def obj_set_def)
  ultimately show ?case using m by auto
qed

lemma map_of_match_values:
  "map_of (rev (map (\<lambda>(key, g2, g3). (key, match_value g2 g3)) ms)) k
   = map_option (\<lambda>(g2, g3). match_value g2 g3) (map_of (rev ms) k)"
  by (induction ms) (auto simp: map_add_def split: option.splits)

text \<open>
  What holds for an attribute name without an \<open>=value\<close> portion: a key other than
  \<open>__proto__\<close> whose last match has groups 2 and 3 both undefined maps to the empty string;
  a tag string that is a single identifier other than \<open>__proto__\<close> gives the mapping with
  that one key and the empty string; an element with one attribute whose value is empty is
  rendered with \<open> key\<close> and no \<open>=""\<close>; \<open>extractAttributes('disabled')\<close> is
  \<open>{disabled: ""}\<close>, rendered as \<open> disabled\<close>.
\<close>

lemma valueless_attribute:
  "(map_of (rev (attr_matches s)) k = Some (None, None) \<and> k \<noteq> ''__proto__''
    \<longrightarrow> map_of (extractAttributes s) k = Some [])
   \<and> (name \<noteq> [] \<and> list_all is_ident name \<and> name \<noteq> ''__proto__''
        \<longrightarrow> extractAttributes name = [(name, [])])
   \<and> jsonToHtml (Element tagName [(key, [])] children)
       = ''<'' @ tagName @ '' '' @ key @ ''>''
         @ (if tagName \<in> set void_tags then []
            else jsonToHtml_array children @ ''</'' @ tagName @ ''>'')
   \<and> extractAttributes ''disabled'' = [(''disabled'', [])]
   \<and> jsonToHtml (Element ''button'' (extractAttributes ''disabled'') [])
       = ''<button disabled></button>''"
proof (intro conjI impI)
  assume a: "map_of (rev (attr_matches s)) k = Some (None, None) \<and> k \<noteq> ''__proto__''"
  then have "map_of (extractAttributes s) k
      = map_option (\<lambda>(g2, g3). match_value g2 g3) (map_of (rev (attr_matches s)) k)"
    by (simp add: extractAttributes_def attr_loop_foldl foldl_assign_lookup map_of_match_values
        split: option.splits)
  with a show "map_of (extractAttributes s) k = Some []" by (simp add: match_value_def)
next
  assume "name \<noteq> [] \<and> list_all is_ident name \<and> name \<noteq> ''__proto__''"
  then show "extractAttributes name = [(name, [])]"
    by (simp add: extractAttributes_def attr_loop_foldl attr_matches_name assign_def
        match_value_def obj_set_def)
next
  have "for_in [(key, [])] = [(key, [])]" by (simp add: for_in_def)
  then show "jsonToHtml (Element tagName [(key, [])] children)
       = ''<'' @ tagName @ '' '' @ key @ ''>''
         @ (if tagName \<in> set void_tags then []
            else jsonToHtml_array children @ ''</'' @ tagName @ ''>'')"
    by (simp add: attr_string_def render_attr_def jsonToHtml_array_def)
next
  show "extractAttributes ''disabled'' = [(''disabled'', [])]" by code_simp
next
  show "jsonToHtml (Element ''button'' (extractAttributes ''disabled'') [])
       = ''<button disabled></button>''" by code_simp
qed

text \<open>
  C9. An attribute name without an \<open>=value\<close> portion is to map to the empty string. For the
  name \<open>__proto__\<close> it does not: the loop finds the match \<open>__proto__\<close> without a value, but
  the assignment \<open>attributes['__proto__'] = ''\<close> on the plain object stores nothing, so
  \<open>extractAttributes('__proto__')\<close> is \<open>{}\<close>, and the attribute of \<open><p __proto__>x</p>\<close>
  is lost by the parser and absent from the serialized form.
\<close>

theorem C9_proto_attribute_lost:
  "attr_matches ''__proto__'' = [(''__proto__'', None, None)]
   \<and> extractAttributes ''__proto__'' = []
   \<and> htmlToJson ''<p __proto__>x</p>'' = [Element ''p'' [] [Text ''x'']]
   \<and> jsonToHtml_array (htmlToJson ''<p __proto__>x</p>'') = ''<p>x</p>''"
  by code_simp

text \<open>
  What holds for values without quotes: every non-empty value in the result of
  \<open>extractAttributes\<close> stands in the tag string between single or double quotes after an
  \<open>=\<close>, so no unquoted value is captured; for \<open>key=tok\<close> with two identifiers the matches are
  \<open>key\<close> and \<open>tok\<close>, both without a value; when the two differ and neither is
  \<open>__proto__\<close> the result maps both to the empty string; \<open>extractAttributes('width=100')\<close>
  is \<open>{width: "", "100": ""}\<close>.
\<close>

lemma unquoted_value:
  "((k, v) \<in> set (extractAttributes s) \<longrightarrow> v = [] \<or> quoted_in v s)
   \<and> (key \<noteq> [] \<and> list_all is_ident key \<and> tok \<noteq> [] \<and> list_all is_ident tok \<longrightarrow>
        attr_matches (key @ ''='' @ tok) = [(key, None, None), (tok, None, None)])
   \<and> (key \<noteq> [] \<and> list_all is_ident key \<and> tok \<noteq> [] \<and> list_all is_ident tok
        \<and> key \<noteq> ''__proto__'' \<and> tok \<noteq> ''__proto__'' \<and> key \<noteq> tok \<longrightarrow>
        extractAttributes (key @ ''='' @ tok) = [(key, []), (tok, [])])
   \<and> extractAttributes ''width=100'' = [(''width'', []), (''100'', [])]"
proof (intro conjI impI)
  assume "(k, v) \<in> set (extractAttributes s)"
  then obtain g2 g3 where "(k, g2, g3) \<in> set (attr_matches s)" and "v = match_value g2 g3"
    by (auto simp: extractAttributes_def attr_loop_foldl dest: foldl_assign_set)
  then show "v = [] \<or> quoted_in v s" using attr_matches_quoted by blast
next
  assume a: "key \<noteq> [] \<and> list_all is_ident key \<and> tok \<noteq> [] \<and> list_all is_ident tok"
  then show "attr_matches (key @ ''='' @ tok) = [(key, None, None), (tok, None, None)]"
    using attr_matches_unquoted [of key tok] by simp
next
  assume a: "key \<noteq> [] \<and> list_all is_ident key \<and> tok \<noteq> [] \<and> list_all is_ident tok
        \<and> key \<noteq> ''__proto__'' \<and> tok \<noteq> ''__proto__'' \<and> key \<noteq> tok"
  then have "attr_matches (key @ ''='' @ tok) = [(key, None, None), (tok, None, None)]"
    using attr_matches_unquoted [of key tok] by simp
  with a show "extractAttributes (key @ ''='' @ tok) = [(key, []), (tok, [])]"
    by (simp add: extractAttributes_def attr_loop_foldl assign_def match_value_def obj_set_def)
next
  show "extractAttributes ''width=100'' = [(''width'', []), (''100'', [])]" by code_simp
qed

text \<open>
  C10. An identifier followed by \<open>=\<close> and an unquoted token is to map the identifier to the
  empty string and to record the token as its own key with the empty string. When the
  identifier or the token is \<open>__proto__\<close> it is not recorded: both matches are found, but the
  assignment to \<open>__proto__\<close> on the plain object stores nothing, so
  \<open>extractAttributes('__proto__=100')\<close> is \<open>{"100": ""}\<close> and
  \<open>extractAttributes('width=__proto__')\<close> is \<open>{width: ""}\<close>.
\<close>

theorem C10_proto_token_lost:
  "attr_matches ''__proto__=100'' = [(''__proto__'', None, None), (''100'', None, None)]
   \<and> extractAttributes ''__proto__=100'' = [(''100'', [])]
   \<and> attr_matches ''width=__proto__'' = [(''width'', None, None), (''__proto__'', None, None)]
   \<and> extractAttributes ''width=__proto__'' = [(''width'', [])]"
  by code_simp

section \<open>Parsing a document\<close>








































section \<open>White-space normalization of a spelling\<close>
















section \<open>Round trip\<close>








section \<open>Script elements\<close>











end
